theory Spec2Isabelle
  imports Complex_Main "HOL-Library.Word" "HOL-Library.Log_Nat"
begin

section \<open>JavaScript numbers\<close>

text \<open>
  The arithmetic of \<^verbatim>\<open>src/utils.ts\<close> is done on JavaScript numbers: IEEE-754 binary64
  values.  A number is \<open>NaN\<close>, one of the two infinities, or a finite value, kept as the
  rational it denotes.  The result of an arithmetic operation on finite values is the exact
  result rounded to the nearest binary64 value, ties to even (\<open>round_to_double\<close>).
  The two zeros are identified: the code never divides by a negative zero, and both are
  falsy.
\<close>

datatype jsnum = NaN | PosInf | NegInf | Fin rat

definition floor_log2 :: "rat \<Rightarrow> int" where
  \<comment> \<open>for \<open>0 < a\<close>: the integer \<open>e\<close> with \<open>2 powi e \<le> a < 2 powi (e + 1)\<close>\<close>
  "floor_log2 a =
     (let (p, q) = quotient_of a; d = bitlen p - bitlen q
      in if 2 powi d \<le> a then d else d - 1)"

definition round_half_even :: "rat \<Rightarrow> int" where
  "round_half_even r =
     (let f = \<lfloor>r\<rfloor>; d = r - of_int f
      in if d < 1 / 2 then f
         else if 1 / 2 < d then f + 1
         else if even f then f else f + 1)"

definition round_to_double :: "rat \<Rightarrow> jsnum" where
  \<comment> \<open>53 bits of precision, least exponent \<open>-1022\<close> (subnormals below), overflow to infinity\<close>
  "round_to_double x =
     (if x = 0 then Fin 0
      else let a = \<bar>x\<bar>;
               e = max (floor_log2 a) (- 1022);
               u = 2 powi (e - 52);
               y = of_int (round_half_even (a / u)) * u
           in if of_int (2 ^ 1024) \<le> y then (if 0 < x then PosInf else NegInf)
              else Fin (sgn x * y))"

fun js_sgn :: "jsnum \<Rightarrow> rat" where
  "js_sgn (Fin a) = sgn a"
| "js_sgn PosInf = 1"
| "js_sgn NegInf = - 1"
| "js_sgn NaN = 0"

fun js_mul :: "jsnum \<Rightarrow> jsnum \<Rightarrow> jsnum" where
  "js_mul (Fin a) (Fin b) = round_to_double (a * b)"
| "js_mul NaN y = NaN"
| "js_mul x NaN = NaN"
| "js_mul x y =
     (if js_sgn x * js_sgn y = 0 then NaN
      else if 0 < js_sgn x * js_sgn y then PosInf else NegInf)"

fun js_div :: "jsnum \<Rightarrow> jsnum \<Rightarrow> jsnum" where
  "js_div (Fin a) (Fin b) =
     (if b = 0 then (if a = 0 then NaN else if 0 < a then PosInf else NegInf)
      else round_to_double (a / b))"
| "js_div NaN y = NaN"
| "js_div x NaN = NaN"
| "js_div (Fin a) y = Fin 0"
| "js_div x (Fin b) = (if (0 < js_sgn x) = (0 \<le> b) then PosInf else NegInf)"
| "js_div x y = NaN"

fun js_sub :: "jsnum \<Rightarrow> jsnum \<Rightarrow> jsnum" where
  "js_sub (Fin a) (Fin b) = round_to_double (a - b)"
| "js_sub NaN y = NaN"
| "js_sub x NaN = NaN"
| "js_sub (Fin a) PosInf = NegInf"
| "js_sub (Fin a) NegInf = PosInf"
| "js_sub x (Fin b) = x"
| "js_sub x y = (if x = y then NaN else x)"

definition trunc :: "rat \<Rightarrow> int" where
  \<comment> \<open>the integer part, towards zero\<close>
  "trunc a = (if 0 \<le> a then \<lfloor>a\<rfloor> else \<lceil>a\<rceil>)"

fun js_mod :: "jsnum \<Rightarrow> jsnum \<Rightarrow> jsnum" where
  \<comment> \<open>the \<^verbatim>\<open>%\<close> operator: the remainder has the sign of the dividend and is exact\<close>
  "js_mod (Fin a) (Fin b) = (if b = 0 then NaN else Fin (a - b * of_int (trunc (a / b))))"
| "js_mod NaN y = NaN"
| "js_mod x NaN = NaN"
| "js_mod (Fin a) y = Fin a"
| "js_mod x y = NaN"

fun js_floor :: "jsnum \<Rightarrow> jsnum" where
  "js_floor (Fin a) = Fin (of_int \<lfloor>a\<rfloor>)"
| "js_floor x = x"

fun js_lt :: "jsnum \<Rightarrow> jsnum \<Rightarrow> bool" where
  "js_lt (Fin a) (Fin b) = (a < b)"
| "js_lt NaN y = False"
| "js_lt x NaN = False"
| "js_lt x PosInf = (x \<noteq> PosInf)"
| "js_lt NegInf y = (y \<noteq> NegInf)"
| "js_lt x y = False"

definition truthy :: "jsnum \<Rightarrow> bool" where
  "truthy x = (x \<noteq> NaN \<and> x \<noteq> Fin 0)"

definition js_or :: "jsnum \<Rightarrow> jsnum \<Rightarrow> jsnum" where
  \<comment> \<open>\<^verbatim>\<open>x || y\<close>\<close>
  "js_or x y = (if truthy x then x else y)"

definition strict_neq :: "jsnum \<Rightarrow> jsnum \<Rightarrow> bool" where
  \<comment> \<open>\<^verbatim>\<open>x !== y\<close>: \<open>NaN\<close> differs from everything, itself included\<close>
  "strict_neq x y = (x = NaN \<or> y = NaN \<or> x \<noteq> y)"

definition number_of_ulong :: "32 word \<Rightarrow> jsnum" where
  \<comment> \<open>an \<^verbatim>\<open>unsigned long\<close> attribute read as a number\<close>
  "number_of_ulong w = Fin (of_nat (unat w))"


section \<open>The GIF conversion: \<^verbatim>\<open>createGifFromVideo\<close> (src/utils.ts)\<close>

subsection \<open>Data\<close>

text \<open>
  A thrown value: an \<^verbatim>\<open>Error\<close> with its message, a \<^verbatim>\<open>TypeError\<close>, or a
  \<^verbatim>\<open>DOMException\<close> with its name.
\<close>

datatype exn = Error string | TypeError | DOMException string

datatype 'a promise = Pending | Resolved 'a | Rejected exn

type_synonym pixels = "8 word list"

type_synonym rgb = "8 word \<times> 8 word \<times> 8 word"

text \<open>
  The media resource behind the video element, once its metadata is known: the attributes
  the code reads, the raster it presents at a playback position (at the size it is drawn),
  and whether its pixels may be read under the cross-origin rules.
\<close>

record clip =
  duration :: jsnum
  videoWidth :: "32 word"
  videoHeight :: "32 word"
  frame_at :: "jsnum \<Rightarrow> pixels"
  cors_readable :: bool

datatype media_event = LoadedMetadata | ErrorEvent

text \<open>
  What the browser decides: the events it dispatches on the video element after
  \<^verbatim>\<open>video.load()\<close>, in order, for a clip that passes the cross-origin check; whether
  \<^verbatim>\<open>getContext('2d')\<close> returns a context; and, for the wait of iteration \<open>i\<close>, whether
  \<^verbatim>\<open>seeked\<close> arrives before the 1000 ms timer.
\<close>

record host =
  media_events :: "media_event list"
  ctx_available :: bool
  seek_fires :: "nat \<Rightarrow> bool"

text \<open>
  The imported library \<^verbatim>\<open>gifenc\<close> is a dependency, not part of the repository: its
  quantizer and palette mapper are parameters, and the byte stream of its encoder is kept
  as the sequence of chunks the calls put into it.
\<close>

record gifenc =
  encoder_is_function :: bool
  quantize :: "pixels \<Rightarrow> nat \<Rightarrow> rgb list"
  applyPalette :: "pixels \<Rightarrow> rgb list \<Rightarrow> 8 word list"

record frame =
  index :: "8 word list"
  fwidth :: jsnum
  fheight :: jsnum
  palette :: "rgb list"
  delay :: jsnum

datatype chunk = FrameChunk frame | Trailer

record blob =
  blob_parts :: "chunk list"
  blob_type :: string

fun frames_of :: "chunk list \<Rightarrow> frame list" where
  "frames_of [] = []"
| "frames_of (FrameChunk f # cs) = f # frames_of cs"
| "frames_of (Trailer # cs) = frames_of cs"

definition writeFrame :: "chunk list \<Rightarrow> 8 word list \<Rightarrow> jsnum \<Rightarrow> jsnum \<Rightarrow> rgb list \<Rightarrow> jsnum \<Rightarrow> chunk list" where
  "writeFrame gif ix w h pal d =
     gif @ [FrameChunk \<lparr>index = ix, fwidth = w, fheight = h, palette = pal, delay = d\<rparr>]"

definition finish :: "chunk list \<Rightarrow> chunk list" where
  "finish gif = gif @ [Trailer]"

subsection \<open>The video element and the canvas\<close>

text \<open>
  The element's playback position and the position of the frame it presents.  Setting
  \<^verbatim>\<open>currentTime\<close> starts a seek; the presented frame changes when the seek completes.
\<close>

record video =
  currentTime :: jsnum
  presented :: jsnum

record context2d =
  raster :: pixels
  origin_clean :: bool

fun is_fin :: "jsnum \<Rightarrow> bool" where
  "is_fin (Fin a) = True"
| "is_fin x = False"

definition wait_for_seek :: "host \<Rightarrow> nat \<Rightarrow> video \<Rightarrow> video" where
  \<comment> \<open>lines 84-97: the promise is resolved by the handler or by the timer, never rejected\<close>
  "wait_for_seek h i v = (if seek_fires h i then v\<lparr>presented := currentTime v\<rparr> else v)"

definition drawImage :: "clip \<Rightarrow> video \<Rightarrow> jsnum \<Rightarrow> jsnum \<Rightarrow> context2d \<Rightarrow> context2d" where
  \<comment> \<open>returns without drawing when a size is not finite; a source that may not be read
      taints the canvas\<close>
  "drawImage c v dw dh ctx =
     (if \<not> is_fin dw \<or> \<not> is_fin dh then ctx
      else ctx\<lparr>raster := frame_at c (presented v),
               origin_clean := origin_clean ctx \<and> cors_readable c\<rparr>)"

definition enforce_range_long :: "jsnum \<Rightarrow> exn + int" where
  \<comment> \<open>the conversion of an argument declared \<^verbatim>\<open>[EnforceRange] long\<close>\<close>
  "enforce_range_long x =
     (case x of
        Fin a \<Rightarrow> (if trunc a < - (2 ^ 31) \<or> 2 ^ 31 - 1 < trunc a then Inl TypeError
                  else Inr (trunc a))
      | _ \<Rightarrow> Inl TypeError)"

definition getImageData :: "context2d \<Rightarrow> jsnum \<Rightarrow> jsnum \<Rightarrow> exn + pixels" where
  "getImageData ctx sw sh =
     (case enforce_range_long sw of
        Inl e \<Rightarrow> Inl e
      | Inr w \<Rightarrow>
          (case enforce_range_long sh of
             Inl e \<Rightarrow> Inl e
           | Inr h \<Rightarrow>
               if w = 0 \<or> h = 0 then Inl (DOMException ''IndexSizeError'')
               else if \<not> origin_clean ctx then Inl (DOMException ''SecurityError'')
               else Inr (raster ctx)))"

subsection \<open>The conversion\<close>

record sampler =
  vid :: video
  ctx2d :: context2d
  gif :: "chunk list"

definition sample_frame ::
  "gifenc \<Rightarrow> host \<Rightarrow> clip \<Rightarrow> jsnum \<Rightarrow> jsnum \<Rightarrow> jsnum \<Rightarrow> nat \<Rightarrow> sampler \<Rightarrow> exn + sampler" where
  \<comment> \<open>the body of the loop, lines 77-107\<close>
  "sample_frame lib h c width height fps i s =
     (let time = js_div (Fin (of_nat i)) fps;
          v = wait_for_seek h i ((vid s)\<lparr>currentTime := time\<rparr>);
          ctx = drawImage c v width height (ctx2d s)
      in case getImageData ctx width height of
           Inl e \<Rightarrow> Inl e
         | Inr data \<Rightarrow>
             let pal = quantize lib data 256;
                 ix = applyPalette lib data pal
             in Inr \<lparr>vid = v, ctx2d = ctx,
                     gif = writeFrame (gif s) ix width height pal (js_div (Fin 1000) fps)\<rparr>)"

partial_function (option) sample_loop ::
  "gifenc \<Rightarrow> host \<Rightarrow> clip \<Rightarrow> jsnum \<Rightarrow> jsnum \<Rightarrow> jsnum \<Rightarrow> jsnum \<Rightarrow> nat \<Rightarrow> sampler \<Rightarrow> (exn + sampler) option" where
  "sample_loop lib h c width height fps totalFrames i s =
     (if js_lt (Fin (of_nat i)) totalFrames
      then (case sample_frame lib h c width height fps i s of
              Inl e \<Rightarrow> Some (Inl e)
            | Inr s' \<Rightarrow> sample_loop lib h c width height fps totalFrames (Suc i) s')
      else Some (Inr s))"

declare sample_loop.simps [code]

definition plan_height :: "clip \<Rightarrow> jsnum \<Rightarrow> jsnum" where
  \<comment> \<open>lines 60-61\<close>
  "plan_height c width =
     (let height = js_floor (js_mul (js_div (number_of_ulong (videoHeight c))
                                            (number_of_ulong (videoWidth c))) width)
      in if strict_neq (js_mod height (Fin 2)) (Fin 0) then js_sub height (Fin 1) else height)"

definition onloadedmetadata :: "gifenc \<Rightarrow> host \<Rightarrow> clip \<Rightarrow> blob promise" where
  \<comment> \<open>lines 55-117; \<open>Pending\<close> when the loop never ends, so that neither \<^verbatim>\<open>resolve\<close> nor
      \<^verbatim>\<open>reject\<close> is called\<close>
  "onloadedmetadata lib h c =
     (let duration = js_or (duration c) (Fin 5);
          width = Fin 400;
          height = plan_height c width;
          fps = Fin 10;
          totalFrames = js_floor (js_mul duration fps)
      in if \<not> ctx_available h then Rejected (Error ''Could not get canvas context'')
         else case sample_loop lib h c width height fps totalFrames 0
                     \<lparr>vid = \<lparr>currentTime = Fin 0, presented = Fin 0\<rparr>,
                      ctx2d = \<lparr>raster = [], origin_clean = True\<rparr>,
                      gif = []\<rparr> of
                None \<Rightarrow> Pending
              | Some (Inl e) \<Rightarrow> Rejected e
              | Some (Inr s) \<Rightarrow>
                  Resolved \<lparr>blob_parts = finish (gif s), blob_type = ''image/gif''\<rparr>)"

fun settle :: "'a promise \<Rightarrow> 'a promise \<Rightarrow> 'a promise" where
  \<comment> \<open>a promise is settled once: later calls of \<^verbatim>\<open>resolve\<close> and \<^verbatim>\<open>reject\<close> do nothing\<close>
  "settle Pending q = q"
| "settle p q = p"

fun handle_event :: "gifenc \<Rightarrow> host \<Rightarrow> clip \<Rightarrow> media_event \<Rightarrow> blob promise" where
  "handle_event lib h c LoadedMetadata = onloadedmetadata lib h c"
| "handle_event lib h c ErrorEvent = Rejected (Error ''Video load failed'')"

fun dispatch :: "gifenc \<Rightarrow> host \<Rightarrow> clip \<Rightarrow> media_event list \<Rightarrow> blob promise \<Rightarrow> blob promise" where
  "dispatch lib h c [] p = p"
| "dispatch lib h c (ev # evs) p = dispatch lib h c evs (settle p (handle_event lib h c ev))"

definition load :: "host \<Rightarrow> clip \<Rightarrow> media_event list" where
  \<comment> \<open>lines 51, 52 and 120: with \<^verbatim>\<open>crossOrigin = "anonymous"\<close> the element fetches the clip
      in CORS mode; a clip that does not pass the check is a network error, for which the
      element fires the error event and nothing else\<close>
  "load h c = (if cors_readable c then media_events h else [ErrorEvent])"

definition createGifFromVideo :: "gifenc \<Rightarrow> host \<Rightarrow> clip \<Rightarrow> blob promise" where
  "createGifFromVideo lib h c =
     (if \<not> encoder_is_function lib
      then Rejected (Error ''GIF library failed to load correctly. Please refresh the page.'')
      else dispatch lib h c (load h c) Pending)"


text \<open>
  The events are handled one after the other, each handler run to its end: an error event
  that arrives while a conversion is still running is not part of this model.  The yield
  to the scheduler at the top of each iteration (line 78) changes no state and is left
  out.  The loop counter is a natural number: as a binary64 value it is exact for the
  first \<open>2 ^ 53\<close> iterations.  Before the first seek completes the element is taken to
  present its frame at position 0.
\<close>

subsection \<open>Notions used to state the properties\<close>

text \<open>The position of the frame the element presents when iteration \<open>i\<close> begins.\<close>

fun pres :: "host \<Rightarrow> jsnum \<Rightarrow> nat \<Rightarrow> jsnum" where
  "pres h fps 0 = Fin 0"
| "pres h fps (Suc i) = (if seek_fires h i then js_div (Fin (of_nat i)) fps else pres h fps i)"

text \<open>The frame written for a raster taken at position \<open>p\<close>.\<close>

definition frame_for :: "gifenc \<Rightarrow> clip \<Rightarrow> jsnum \<Rightarrow> jsnum \<Rightarrow> jsnum \<Rightarrow> jsnum \<Rightarrow> frame" where
  "frame_for lib c w hgt fps p =
     (let data = frame_at c p; pal = quantize lib data 256
      in \<lparr>index = applyPalette lib data pal, fwidth = w, fheight = hgt, palette = pal,
          delay = js_div (Fin 1000) fps\<rparr>)"

definition scaled_height :: "clip \<Rightarrow> jsnum \<Rightarrow> jsnum" where
  \<comment> \<open>\<^verbatim>\<open>(video.videoHeight / video.videoWidth) * width\<close>\<close>
  "scaled_height c width =
     js_mul (js_div (number_of_ulong (videoHeight c)) (number_of_ulong (videoWidth c))) width"

definition totalFrames :: "clip \<Rightarrow> jsnum" where
  \<comment> \<open>lines 57 and 64\<close>
  "totalFrames c = js_floor (js_mul (js_or (duration c) (Fin 5)) (Fin 10))"

definition sampled_frames :: "gifenc \<Rightarrow> host \<Rightarrow> clip \<Rightarrow> nat \<Rightarrow> frame list" where
  \<comment> \<open>the frames of the first \<open>n\<close> iterations\<close>
  "sampled_frames lib h c n =
     map (\<lambda>k. frame_for lib c (Fin 400) (plan_height c (Fin 400)) (Fin 10) (pres h (Fin 10) (Suc k)))
         [0..<n]"

definition frame_count :: "blob \<Rightarrow> nat" where
  "frame_count b = length (frames_of (blob_parts b))"

definition readable_raster :: "clip \<Rightarrow> bool" where
  \<comment> \<open>the pixels may be read and the raster is not empty\<close>
  "readable_raster c =
     (cors_readable c \<and>
      (case enforce_range_long (plan_height c (Fin 400)) of
         Inl e \<Rightarrow> False
       | Inr hh \<Rightarrow> hh \<noteq> 0))"


definition convertible :: "gifenc \<Rightarrow> host \<Rightarrow> clip \<Rightarrow> bool" where
  \<comment> \<open>the library is there, the metadata loads first, a context is available and the raster
      can be read\<close>
  "convertible lib h c =
     (encoder_is_function lib \<and>
      (case media_events h of LoadedMetadata # evs \<Rightarrow> True | _ \<Rightarrow> False) \<and>
      ctx_available h \<and> readable_raster c)"



section \<open>Polling the video generation: \<^verbatim>\<open>pollForVideo\<close>\<close>

text \<open>
  The long-running operation, as far as the loop reads it, and what the loop meets outside
  the program: the reading of \<^verbatim>\<open>Date.now()\<close> at the call, by how much the timer of the
  \<open>k\<close>-th \<^verbatim>\<open>sleep\<close> is late, the time that passes on the clock during the \<open>k\<close>-th
  request, and the answer of that request (a rejected request makes the \<^verbatim>\<open>await\<close>
  throw).  The clock is threaded through the loop: \<^verbatim>\<open>Date.now()\<close> reads it.
\<close>

record operation =
  op_done :: bool
  op_name :: string

record service =
  date_now :: int
  timer_late :: "nat \<Rightarrow> int"
  request_took :: "nat \<Rightarrow> int"
  getVideosOperation :: "nat \<Rightarrow> operation \<Rightarrow> exn + operation"

definition sleep :: "service \<Rightarrow> nat \<Rightarrow> int \<Rightarrow> int \<Rightarrow> int" where
  \<comment> \<open>the clock after the \<open>k\<close>-th \<^verbatim>\<open>await sleep(ms)\<close>\<close>
  "sleep sv k ms now = now + ms + timer_late sv k"

definition MAX_WAIT_TIME :: int where
  "MAX_WAIT_TIME = 180000"

partial_function (option) poll_loop ::
  "service \<Rightarrow> int \<Rightarrow> nat \<Rightarrow> int \<Rightarrow> operation \<Rightarrow> (exn + operation) option" where
  "poll_loop sv startTime k now op =
     (if \<not> op_done op
      then (if now - startTime > MAX_WAIT_TIME
            then Some (Inl (Error ''Video generation timed out.''))
            else (case getVideosOperation sv k op of
                    Inl e \<Rightarrow> Some (Inl e)
                  | Inr op' \<Rightarrow>
                      poll_loop sv startTime (Suc k)
                        (sleep sv k 5000 now + request_took sv k) op'))
      else Some (Inr op))"

declare poll_loop.simps [code]

definition pollForVideo :: "service \<Rightarrow> operation \<Rightarrow> (exn + operation) option" where
  "pollForVideo sv operation = poll_loop sv (date_now sv) 0 (date_now sv) operation"



subsection \<open>Notions used to state the properties of the polling\<close>


fun clock_at :: "service \<Rightarrow> nat \<Rightarrow> int" where
  \<comment> \<open>the clock at the \<open>k\<close>-th check: each round before it slept 5000 ms and sent a request\<close>
  "clock_at sv 0 = date_now sv"
| "clock_at sv (Suc k) = clock_at sv k + 5000 + timer_late sv k + request_took sv k"





section \<open>Concrete inputs\<close>

fun rgb_pixels :: "pixels \<Rightarrow> rgb list" where
  "rgb_pixels (r # g # b # a # rest) = (r, g, b) # rgb_pixels rest"
| "rgb_pixels rest = []"

fun palette_index :: "rgb list \<Rightarrow> rgb \<Rightarrow> 8 word" where
  "palette_index [] p = 0"
| "palette_index (q # qs) p = (if p = q then 0 else 1 + palette_index qs p)"

definition distinct_colours :: gifenc where
  \<comment> \<open>a quantizer that keeps the first \<open>n\<close> distinct colours\<close>
  "distinct_colours =
     \<lparr>encoder_is_function = True,
      quantize = (\<lambda>data n. take n (remdups (rgb_pixels data))),
      applyPalette = (\<lambda>data pal. map (palette_index pal) (rgb_pixels data))\<rparr>"

definition two_tone :: clip where
  \<comment> \<open>a quarter of a second of 320x180 video: black at position 0, black and white after\<close>
  "two_tone =
     \<lparr>duration = Fin (1 / 4), videoWidth = 320, videoHeight = 180,
      frame_at = (\<lambda>t. if t = Fin 0 then [0, 0, 0, 255]
                       else [0, 0, 0, 255, 255, 255, 255, 255]),
      cors_readable = True\<rparr>"

definition prompt_host :: host where
  \<comment> \<open>the metadata loads and every seek completes in time\<close>
  "prompt_host =
     \<lparr>media_events = [LoadedMetadata], ctx_available = True, seek_fires = (\<lambda>i. True)\<rparr>"

definition stalled_host :: host where
  \<comment> \<open>the same, but only the first seek completes in time\<close>
  "stalled_host =
     \<lparr>media_events = [LoadedMetadata], ctx_available = True, seek_fires = (\<lambda>i. i = 0)\<rparr>"



definition two_tone_gif :: blob where
  "two_tone_gif =
     \<lparr>blob_parts =
        [FrameChunk \<lparr>index = [0], fwidth = Fin 400, fheight = Fin 224,
                     palette = [(0, 0, 0)], delay = Fin 100\<rparr>,
         FrameChunk \<lparr>index = [0, 1], fwidth = Fin 400, fheight = Fin 224,
                     palette = [(0, 0, 0), (255, 255, 255)], delay = Fin 100\<rparr>,
         Trailer],
      blob_type = ''image/gif''\<rparr>"


definition failing_host :: host where
  \<comment> \<open>the load fails; a metadata event that follows finds the promise settled\<close>
  "failing_host =
     \<lparr>media_events = [ErrorEvent, LoadedMetadata], ctx_available = True,
      seek_fires = (\<lambda>i. True)\<rparr>"





definition pending_operation :: operation where
  "pending_operation = \<lparr>op_done = False, op_name = ''operations/1''\<rparr>"


definition unreadable :: clip where
  \<comment> \<open>the clip \<open>two_tone\<close> served without permission to read its pixels\<close>
  "unreadable = two_tone\<lparr>cors_readable := False\<rparr>"


definition late_service :: service where
  \<comment> \<open>the first answer is the done operation, and it takes 200 seconds\<close>
  "late_service =
     \<lparr>date_now = 1000, timer_late = (\<lambda>k. 0), request_took = (\<lambda>k. 200000),
      getVideosOperation = (\<lambda>k op. Inr (op\<lparr>op_done := True\<rparr>))\<rparr>"

definition done_operation :: operation where
  "done_operation = pending_operation\<lparr>op_done := True\<rparr>"


section \<open>Properties of the number model\<close>

lemma bitlen_powi:
  assumes "0 < (p::int)"
  shows "2 powi (bitlen p - 1) \<le> (of_int p :: rat)" and "(of_int p :: rat) < 2 powi (bitlen p)"
proof -
  have b: "1 \<le> bitlen p" using assms by (simp add: bitlen_alt_def)
  from bitlen_bounds[OF assms]
  have l: "2 ^ nat (bitlen p - 1) \<le> p" and u: "p < 2 ^ nat (bitlen p)" by simp_all
  have "(of_int (2 ^ nat (bitlen p - 1)) :: rat) \<le> of_int p"
    using l by (simp only: of_int_le_iff)
  then show "2 powi (bitlen p - 1) \<le> (of_int p :: rat)"
    using b by (simp add: power_int_nonneg_exp)
  have "(of_int p :: rat) < of_int (2 ^ nat (bitlen p))"
    using u by (simp only: of_int_less_iff)
  then show "(of_int p :: rat) < 2 powi (bitlen p)"
    using b by (simp add: power_int_nonneg_exp)
qed

lemma floor_log2_bounds:
  assumes "0 < a"
  shows "2 powi (floor_log2 a) \<le> a" and "a < 2 powi (floor_log2 a + 1)"
proof -
  obtain p q where pq: "quotient_of a = (p, q)" by (cases "quotient_of a")
  have q: "0 < q" using quotient_of_denom_pos[OF pq] .
  have a: "a = of_int p / of_int q" using quotient_of_div[OF pq] .
  have p: "0 < p" using assms q a by (simp add: zero_less_divide_iff)
  define d where "d = bitlen p - bitlen q"
  have fl: "floor_log2 a = (if 2 powi d \<le> a then d else d - 1)"
    by (simp add: floor_log2_def pq d_def Let_def)
  have q': "(0::rat) < of_int q" using q by simp
  have "a < 2 powi (bitlen p) / 2 powi (bitlen q - 1)"
  proof -
    have "a * 2 powi (bitlen q - 1) \<le> a * of_int q"
      using bitlen_powi(1)[OF q] assms by (simp add: mult_left_mono)
    also have "\<dots> = of_int p" using a q' by simp
    also have "\<dots> < 2 powi (bitlen p)" using bitlen_powi(2)[OF p] .
    finally show ?thesis by (simp add: pos_less_divide_eq)
  qed
  also have "\<dots> = 2 powi (d + 1)"
    by (simp add: d_def power_int_diff[symmetric] algebra_simps)
  finally have up: "a < 2 powi (d + 1)" .
  have "2 powi (bitlen p - 1) / 2 powi (bitlen q) < a"
  proof -
    have "2 powi (bitlen p - 1) \<le> (of_int p :: rat)" using bitlen_powi(1)[OF p] .
    also have "\<dots> = a * of_int q" using a q' by simp
    also have "\<dots> < a * 2 powi (bitlen q)"
      using bitlen_powi(2)[OF q] assms by (simp add: mult_strict_left_mono)
    finally show ?thesis by (simp add: pos_divide_less_eq)
  qed
  moreover have "2 powi (bitlen p - 1) / 2 powi (bitlen q) = (2::rat) powi (d - 1)"
    by (simp add: d_def power_int_diff[symmetric] algebra_simps)
  ultimately have lo: "2 powi (d - 1) < a" by simp
  show "2 powi (floor_log2 a) \<le> a" using fl lo by (auto simp: less_imp_le)
  show "a < 2 powi (floor_log2 a + 1)" using fl up by (auto simp: not_le)
qed

lemma round_half_even_of_int: "round_half_even (of_int k) = k"
  by (simp add: round_half_even_def)

lemma round_half_even_bounds: "\<lfloor>r\<rfloor> \<le> round_half_even r" "round_half_even r \<le> \<lceil>r\<rceil>"
proof -
  show "\<lfloor>r\<rfloor> \<le> round_half_even r" by (simp add: round_half_even_def Let_def)
  have "r \<noteq> of_int \<lfloor>r\<rfloor> \<Longrightarrow> \<lceil>r\<rceil> = \<lfloor>r\<rfloor> + 1"
    by (metis ceiling_altdef)
  moreover have "r = of_int \<lfloor>r\<rfloor> \<Longrightarrow> round_half_even r = \<lfloor>r\<rfloor>"
    by (simp add: round_half_even_def Let_def)
  moreover have "round_half_even r \<le> \<lfloor>r\<rfloor> + 1"
    by (simp add: round_half_even_def Let_def)
  ultimately show "round_half_even r \<le> \<lceil>r\<rceil>"
    by (cases "r = of_int \<lfloor>r\<rfloor>") (simp_all add: ceiling_altdef)
qed


lemma powi2_less_iff: "(2::rat) powi m < 2 powi n \<longleftrightarrow> m < n"
proof
  assume "(2::rat) powi m < 2 powi n"
  show "m < n"
  proof (rule ccontr)
    assume "\<not> m < n"
    then have "(2::rat) powi n \<le> 2 powi m" by (intro power_int_increasing) simp_all
    with \<open>(2::rat) powi m < 2 powi n\<close> show False by simp
  qed
next
  assume "m < n"
  then show "(2::rat) powi m < 2 powi n" by (intro power_int_strict_increasing) simp_all
qed

lemma powi2_le_iff: "(2::rat) powi m \<le> 2 powi n \<longleftrightarrow> m \<le> n"
  using powi2_less_iff[of n m] by (simp add: not_less[symmetric])

lemma round_to_double_of_int:
  assumes "\<bar>k\<bar> \<le> 2 ^ 53"
  shows "round_to_double (of_int k) = Fin (of_int k)"
proof (cases "k = 0")
  case True
  then show ?thesis by (simp add: round_to_double_def)
next
  case False
  define a :: rat where "a = \<bar>of_int k\<bar>"
  define e0 where "e0 = floor_log2 a"
  have a1: "1 \<le> a" using False by (simp add: a_def flip: of_int_abs)
  then have a0: "0 < a" by simp
  have a53: "a \<le> 2 ^ 53"
  proof -
    have "(of_int \<bar>k\<bar> :: rat) \<le> of_int (2 ^ 53)" using assms by (simp only: of_int_le_iff)
    then show ?thesis by (simp add: a_def)
  qed
  have lo: "2 powi e0 \<le> a" and up: "a < 2 powi (e0 + 1)"
    using floor_log2_bounds[OF a0] by (simp_all add: e0_def)
  have "(2::rat) powi 0 < 2 powi (e0 + 1)" using a1 up by simp
  then have e0_ge: "0 \<le> e0" by (simp only: powi2_less_iff)
  have "(2::rat) powi e0 \<le> 2 powi 53" using lo a53 by simp
  then have e0_le: "e0 \<le> 53" by (simp only: powi2_le_iff)
  have e: "max e0 (- 1022) = e0" using e0_ge by simp
  define u :: rat where "u = 2 powi (e0 - 52)"
  have u0: "0 < u" by (simp add: u_def)
  have "\<exists>M. a / u = of_int M"
  proof (cases "e0 = 53")
    case True
    then have "a = 2 ^ 53" using lo a53 by simp
    moreover have "u = 2" using True by (simp add: u_def)
    ultimately have "a / u = of_int (2 ^ 52)" by simp
    then show ?thesis by blast
  next
    case False
    then have le: "e0 \<le> 52" using e0_le by simp
    have "a / u = a * 2 powi (52 - e0)"
      by (simp add: u_def power_int_diff field_simps)
    also have "\<dots> = of_int \<bar>k\<bar> * of_int (2 ^ nat (52 - e0))"
      using le by (simp add: a_def power_int_nonneg_exp)
    also have "\<dots> = of_int (\<bar>k\<bar> * 2 ^ nat (52 - e0))" by simp
    finally show ?thesis by blast
  qed
  then obtain M where M: "a / u = of_int M" by blast
  have "round_half_even (a / u) = M"
    unfolding M by (rule round_half_even_of_int)
  then have "of_int (round_half_even (a / u)) * u = a / u * u"
    using M by simp
  then have y: "of_int (round_half_even (a / u)) * u = a"
    using u0 by simp
  have "\<not> of_int (2 ^ 1024) \<le> a"
  proof -
    have "a < of_int (2 ^ 1024)" using a53 by (rule order_le_less_trans) simp
    then show ?thesis by simp
  qed
  moreover have "sgn (of_int k :: rat) * a = of_int k"
    by (simp add: a_def sgn_mult_abs)
  moreover note y e
  ultimately have "\<not> of_int (2 ^ 1024) \<le> of_int (round_half_even (a / u)) * u"
    and "sgn (of_int k :: rat) * (of_int (round_half_even (a / u)) * u) = of_int k"
    and "max (floor_log2 a) (- 1022) = e0"
    by (simp_all add: e0_def)
  then have "(let a' = a; e = max (floor_log2 a') (- 1022); u' = 2 powi (e - 52);
                  y = of_int (round_half_even (a' / u')) * u'
              in if of_int (2 ^ 1024) \<le> y then (if 0 < (of_int k :: rat) then PosInf else NegInf)
                 else Fin (sgn (of_int k) * y)) = Fin (of_int k)"
    by (simp add: Let_def u_def)
  then show ?thesis
    using False unfolding round_to_double_def a_def by (simp only: of_int_eq_0_iff if_False)
qed


lemma round_to_double_odd_floor:
  assumes r: "round_to_double x = Fin y" and o: "odd \<lfloor>y\<rfloor>"
  shows "\<bar>y\<bar> \<le> 2 ^ 53"
proof -
  have x0: "x \<noteq> 0"
  proof
    assume "x = 0"
    with r have "y = 0" by (simp add: round_to_double_def)
    with o show False by simp
  qed
  define a where "a = \<bar>x\<bar>"
  define e where "e = max (floor_log2 a) (- 1022)"
  define u :: rat where "u = 2 powi (e - 52)"
  define m where "m = round_half_even (a / u)"
  define s :: int where "s = (if 0 < x then 1 else - 1)"
  have a0: "0 < a" using x0 by (simp add: a_def)
  have u0: "0 < u" by (simp add: u_def)
  have sg: "sgn x = of_int s" using x0 by (simp add: s_def sgn_if)
  have "round_to_double x =
          (if of_int (2 ^ 1024) \<le> of_int m * u then (if 0 < x then PosInf else NegInf)
           else Fin (sgn x * (of_int m * u)))"
    using x0 by (simp add: round_to_double_def Let_def m_def u_def e_def a_def)
  with r have y: "y = of_int s * (of_int m * u)"
    by (auto simp: sg split: if_splits)
  have "0 \<le> a / u" using a0 u0 by simp
  then have "0 \<le> \<lfloor>a / u\<rfloor>" by simp
  then have m0: "0 \<le> m" using round_half_even_bounds(1)[of "a / u"] unfolding m_def by linarith
  have "a < 2 powi (floor_log2 a + 1)" using floor_log2_bounds(2)[OF a0] .
  also have "\<dots> \<le> 2 powi (e + 1)" by (simp only: powi2_le_iff) (simp add: e_def)
  finally have "a / u < 2 powi (e + 1) / u" using u0 by (simp add: divide_strict_right_mono)
  also have "2 powi (e + 1) / u = 2 powi 53"
    by (simp add: u_def power_int_diff[symmetric])
  finally have "a / u \<le> of_int (2 ^ 53)" by simp
  then have "\<lceil>a / u\<rceil> \<le> 2 ^ 53" by (simp only: ceiling_le_iff)
  then have m53: "m \<le> 2 ^ 53" using round_half_even_bounds(2)[of "a / u"] unfolding m_def by linarith
  have e52: "e \<le> 52"
  proof (rule ccontr)
    assume "\<not> e \<le> 52"
    then have "u = 2 ^ nat (e - 52)" by (simp add: u_def power_int_nonneg_exp)
    also have "nat (e - 52) = Suc (nat (e - 53))" using \<open>\<not> e \<le> 52\<close> by simp
    finally have "u = of_int (2 * 2 ^ nat (e - 53))" by simp
    then have "y = of_int (s * m * (2 * 2 ^ nat (e - 53)))" using y by simp
    then have "\<lfloor>y\<rfloor> = s * m * (2 * 2 ^ nat (e - 53))" by (simp only: floor_of_int)
    then have "even \<lfloor>y\<rfloor>" by simp
    with o show False by simp
  qed
  then have "u \<le> 2 powi 0" unfolding u_def by (simp only: powi2_le_iff)
  then have u1: "u \<le> 1" by simp
  have "\<bar>y\<bar> = of_int m * u" using m0 u0 by (simp add: y s_def abs_mult)
  also have "\<dots> \<le> of_int m * 1" using u1 m0 by (intro mult_left_mono) simp_all
  also have "\<dots> \<le> of_int (2 ^ 53)" using m53 by (simp only: mult_1_right of_int_le_iff)
  finally show ?thesis by simp
qed

lemma js_mod_2_of_int:
  "strict_neq (js_mod (Fin (of_int n)) (Fin 2)) (Fin 0) \<longleftrightarrow> odd n"
proof -
  have "(of_int n :: rat) / 2 = of_int n / of_int 2" by simp
  have fl: "\<lfloor>(of_int n :: rat) / 2\<rfloor> = n div 2"
    using floor_divide_of_int_eq[of n 2, where ?'a = rat] by simp
  have ce: "\<lceil>(of_int n :: rat) / 2\<rceil> = - ((- n) div 2)"
  proof -
    have "\<lceil>(of_int n :: rat) / 2\<rceil> = - \<lfloor>(of_int (- n) :: rat) / 2\<rfloor>"
      by (simp add: ceiling_def)
    also have "\<lfloor>(of_int (- n) :: rat) / 2\<rfloor> = (- n) div 2"
      using floor_divide_of_int_eq[of "- n" 2, where ?'a = rat] by simp
    finally show ?thesis .
  qed
  define t where "t = trunc (of_int n / 2)"
  have par: "n - 2 * t \<noteq> 0 \<longleftrightarrow> odd n"
    unfolding t_def trunc_def using fl ce by (auto simp: zero_le_divide_iff) presburger+
  have "js_mod (Fin (of_int n)) (Fin 2) = Fin (of_int (n - 2 * t))"
    by (simp add: t_def)
  then have "strict_neq (js_mod (Fin (of_int n)) (Fin 2)) (Fin 0) \<longleftrightarrow> n - 2 * t \<noteq> 0"
    by (simp add: strict_neq_def del: of_int_diff of_int_mult)
  then show ?thesis using par by simp
qed


lemma js_mul_Fin: "js_mul x y = Fin z \<Longrightarrow> \<exists>q. round_to_double q = Fin z"
  by (cases x; cases y) (auto split: if_splits)

lemma plan_height_Fin:
  assumes "scaled_height c w = Fin y"
  shows "plan_height c w = Fin (of_int (if odd \<lfloor>y\<rfloor> then \<lfloor>y\<rfloor> - 1 else \<lfloor>y\<rfloor>))"
proof (cases "odd \<lfloor>y\<rfloor>")
  case False
  then show ?thesis
    using assms js_mod_2_of_int[of "\<lfloor>y\<rfloor>"]
    by (simp add: plan_height_def scaled_height_def Let_def)
next
  case True
  obtain q where q: "round_to_double q = Fin y"
    using assms js_mul_Fin unfolding scaled_height_def by blast
  have b: "\<bar>y\<bar> \<le> 2 ^ 53" using round_to_double_odd_floor[OF q True] .
  then have "- (2 ^ 53) \<le> y" "y \<le> 2 ^ 53" by (simp_all add: abs_le_iff)
  then have "- (2 ^ 53) \<le> \<lfloor>y\<rfloor>" "\<lfloor>y\<rfloor> \<le> 2 ^ 53"
    by (simp_all add: le_floor_iff floor_le_iff)
  moreover have "\<lfloor>y\<rfloor> \<noteq> - (2 ^ 53)" using True by auto
  ultimately have "\<bar>\<lfloor>y\<rfloor> - 1\<bar> \<le> 2 ^ 53" by linarith
  then have "round_to_double (of_int (\<lfloor>y\<rfloor> - 1)) = Fin (of_int (\<lfloor>y\<rfloor> - 1))"
    by (rule round_to_double_of_int)
  then have "js_sub (Fin (of_int \<lfloor>y\<rfloor>)) (Fin 1) = Fin (of_int (\<lfloor>y\<rfloor> - 1))"
    by simp
  then show ?thesis
    using True assms js_mod_2_of_int[of "\<lfloor>y\<rfloor>"]
    by (simp add: plan_height_def scaled_height_def Let_def del: js_sub.simps of_int_diff)
qed

lemma plan_height_not_Fin:
  assumes "\<not> is_fin (scaled_height c w)"
  shows "\<not> is_fin (plan_height c w)"
  using assms
  by (cases "scaled_height c w")
     (simp_all add: plan_height_def scaled_height_def Let_def strict_neq_def)


section \<open>Properties of the sampling loop\<close>

lemma enforce_range_long_Inr: "enforce_range_long x = Inr n \<Longrightarrow> is_fin x"
  by (cases x) (simp_all add: enforce_range_long_def)

lemma getImageData_Inr:
  assumes "getImageData ctx sw sh = Inr d"
  shows "d = raster ctx \<and> origin_clean ctx \<and> is_fin sw \<and> is_fin sh
         \<and> (\<exists>n. enforce_range_long sh = Inr n \<and> n \<noteq> 0)"
  using assms
  by (auto simp: getImageData_def split: sum.splits if_splits dest: enforce_range_long_Inr)

lemma sample_frame_Inr:
  assumes "sample_frame lib h c w hgt fps i s = Inr s'"
  shows "presented (vid s') = (if seek_fires h i then js_div (Fin (of_nat i)) fps else presented (vid s))"
    and "gif s' = gif s @ [FrameChunk (frame_for lib c w hgt fps (presented (vid s')))]"
    and "origin_clean (ctx2d s')"
    and "\<exists>n. enforce_range_long hgt = Inr n \<and> n \<noteq> 0"
  using assms
  by (auto simp: sample_frame_def Let_def wait_for_seek_def drawImage_def writeFrame_def frame_for_def
      split: sum.splits if_splits dest!: getImageData_Inr)

lemma sample_loop_Inr:
  assumes "sample_loop lib h c w hgt fps tf i s = Some r"
  shows "\<forall>s'. r = Inr s' \<longrightarrow> presented (vid s) = pres h fps i \<longrightarrow>
           (\<exists>n\<ge>i. gif s' = gif s @ map (\<lambda>k. FrameChunk (frame_for lib c w hgt fps (pres h fps (Suc k)))) [i..<n]
              \<and> \<not> js_lt (Fin (of_nat n)) tf
              \<and> (\<forall>k. i \<le> k \<and> k < n \<longrightarrow> js_lt (Fin (of_nat k)) tf))"
  using assms
proof (induction lib h c w hgt fps tf i s r rule: sample_loop.raw_induct[rotated 1, consumes 1])
  case (1 loop lib h c w hgt fps tf i s r)
  show ?case
  proof (intro allI impI)
    fix s' assume r: "r = Inr s'" and p: "presented (vid s) = pres h fps i"
    show "\<exists>n\<ge>i. gif s' = gif s @ map (\<lambda>k. FrameChunk (frame_for lib c w hgt fps (pres h fps (Suc k)))) [i..<n]
              \<and> \<not> js_lt (Fin (of_nat n)) tf
              \<and> (\<forall>k. i \<le> k \<and> k < n \<longrightarrow> js_lt (Fin (of_nat k)) tf)"
    proof (cases "js_lt (Fin (of_nat i)) tf")
      case False
      with 1(2) r have "s' = s" by simp
      with False show ?thesis by (intro exI[of _ i]) auto
    next
      case True
      from 1(2) True r
      have e: "(case sample_frame lib h c w hgt fps i s of
                  Inl e \<Rightarrow> Some (Inl e)
                | Inr s1 \<Rightarrow> loop lib h c w hgt fps tf (Suc i) s1) = Some (Inr s')"
        by simp
      then obtain s1 where f: "sample_frame lib h c w hgt fps i s = Inr s1"
        and l: "loop lib h c w hgt fps tf (Suc i) s1 = Some (Inr s')"
        by (cases "sample_frame lib h c w hgt fps i s") simp_all
      have p1: "presented (vid s1) = pres h fps (Suc i)"
        using sample_frame_Inr(1)[OF f] p by simp
      have "\<exists>n\<ge>Suc i. gif s' = gif s1 @ map (\<lambda>k. FrameChunk (frame_for lib c w hgt fps (pres h fps (Suc k)))) [Suc i..<n]
              \<and> \<not> js_lt (Fin (of_nat n)) tf
              \<and> (\<forall>k. Suc i \<le> k \<and> k < n \<longrightarrow> js_lt (Fin (of_nat k)) tf)"
        using 1(1)[OF l] p1 by simp
      then obtain n where n: "Suc i \<le> n"
        "gif s' = gif s1 @ map (\<lambda>k. FrameChunk (frame_for lib c w hgt fps (pres h fps (Suc k)))) [Suc i..<n]"
        "\<not> js_lt (Fin (of_nat n)) tf"
        "\<forall>k. Suc i \<le> k \<and> k < n \<longrightarrow> js_lt (Fin (of_nat k)) tf"
        by (elim exE conjE)
      have u: "[i..<n] = i # [Suc i..<n]"
        using n(1) by (intro upt_conv_Cons) simp
      have "gif s' = gif s @ map (\<lambda>k. FrameChunk (frame_for lib c w hgt fps (pres h fps (Suc k)))) [i..<n]"
        unfolding u using n(2) sample_frame_Inr(2)[OF f] p1 by simp
      moreover have "\<forall>k. i \<le> k \<and> k < n \<longrightarrow> js_lt (Fin (of_nat k)) tf"
      proof (intro allI impI)
        fix k assume k: "i \<le> k \<and> k < n"
        show "js_lt (Fin (of_nat k)) tf"
        proof (cases "k = i")
          case True
          with \<open>js_lt (Fin (of_nat i)) tf\<close> show ?thesis by simp
        next
          case False
          with k have "Suc i \<le> k \<and> k < n" by simp
          with n(4) show ?thesis by blast
        qed
      qed
      ultimately show ?thesis using n(1,3) by (intro exI[of _ n]) simp
    qed
  qed
qed


lemma sample_frame_ok:
  assumes "enforce_range_long w = Inr ww" "ww \<noteq> 0" "enforce_range_long hgt = Inr hh" "hh \<noteq> 0"
    and "cors_readable c" "origin_clean (ctx2d s)"
  shows "\<exists>s1. sample_frame lib h c w hgt fps i s = Inr s1 \<and> origin_clean (ctx2d s1)"
proof -
  have f: "is_fin w" "is_fin hgt"
    using assms(1,3) by (auto dest: enforce_range_long_Inr)
  let ?v = "wait_for_seek h i ((vid s)\<lparr>currentTime := js_div (Fin (of_nat i)) fps\<rparr>)"
  let ?ctx = "drawImage c ?v w hgt (ctx2d s)"
  have "origin_clean ?ctx" using assms(5,6) f by (simp add: drawImage_def)
  then have "getImageData ?ctx w hgt = Inr (raster ?ctx)"
    using assms(1-4) by (simp add: getImageData_def)
  then show ?thesis
    using \<open>origin_clean ?ctx\<close> by (simp add: sample_frame_def Let_def)
qed

lemma sample_loop_total:
  assumes "enforce_range_long w = Inr ww" "ww \<noteq> 0" "enforce_range_long hgt = Inr hh" "hh \<noteq> 0"
    and "cors_readable c"
  shows "origin_clean (ctx2d s) \<Longrightarrow> \<exists>s'. sample_loop lib h c w hgt fps (Fin t) i s = Some (Inr s')"
proof (induction "nat \<lceil>t\<rceil> - i" arbitrary: i s)
  case 0
  then have "\<lceil>t\<rceil> \<le> int i" by simp
  then have "t \<le> of_int (int i)" by (simp add: ceiling_le_iff)
  then have "\<not> of_nat i < t" by simp
  then show ?case by (subst sample_loop.simps) simp
next
  case (Suc k)
  show ?case
  proof (cases "of_nat i < t")
    case False
    then show ?thesis by (subst sample_loop.simps) simp
  next
    case True
    obtain s1 where s1: "sample_frame lib h c w hgt fps i s = Inr s1" "origin_clean (ctx2d s1)"
      using sample_frame_ok[OF assms Suc.prems] by blast
    have "k = nat \<lceil>t\<rceil> - Suc i" using Suc.hyps(2) by simp
    from Suc.hyps(1)[OF this s1(2)] obtain s' where
      "sample_loop lib h c w hgt fps (Fin t) (Suc i) s1 = Some (Inr s')" by blast
    with True s1(1) show ?thesis by (subst sample_loop.simps) simp
  qed
qed



section \<open>Properties of the conversion\<close>

lemma frames_of_append: "frames_of (xs @ ys) = frames_of xs @ frames_of ys"
  by (induction xs rule: frames_of.induct) simp_all

lemma frames_of_map_FrameChunk: "frames_of (map FrameChunk fs) = fs"
  by (induction fs) simp_all

lemma sample_loop_Inr_height:
  assumes "sample_loop lib h c w hgt fps tf i s = Some (Inr s')"
    and "js_lt (Fin (of_nat i)) tf"
  shows "\<exists>hh. enforce_range_long hgt = Inr hh \<and> hh \<noteq> 0"
proof (cases "sample_frame lib h c w hgt fps i s")
  case (Inl e)
  with assms show ?thesis by (subst (asm) sample_loop.simps) simp
next
  case (Inr s1)
  then show ?thesis by (rule sample_frame_Inr(4))
qed

lemma enforce_range_long_400: "enforce_range_long (Fin 400) = Inr 400"
  by (simp add: enforce_range_long_def trunc_def)

lemma onloadedmetadata_Resolved:
  assumes "onloadedmetadata lib h c = Resolved b"
  shows "\<exists>n. frames_of (blob_parts b) = sampled_frames lib h c n
            \<and> \<not> js_lt (Fin (of_nat n)) (totalFrames c)
            \<and> (\<forall>k<n. js_lt (Fin (of_nat k)) (totalFrames c))
            \<and> (0 < n \<longrightarrow> (\<exists>hh. enforce_range_long (plan_height c (Fin 400)) = Inr hh \<and> hh \<noteq> 0))"
proof -
  let ?s0 = "\<lparr>vid = \<lparr>currentTime = Fin 0, presented = Fin 0\<rparr>,
              ctx2d = \<lparr>raster = [], origin_clean = True\<rparr>, gif = []\<rparr>"
  let ?hgt = "plan_height c (Fin 400)"
  have om: "onloadedmetadata lib h c =
      (if \<not> ctx_available h then Rejected (Error ''Could not get canvas context'')
       else case sample_loop lib h c (Fin 400) ?hgt (Fin 10) (totalFrames c) 0 ?s0 of
              None \<Rightarrow> Pending
            | Some (Inl e) \<Rightarrow> Rejected e
            | Some (Inr s) \<Rightarrow> Resolved \<lparr>blob_parts = finish (gif s), blob_type = ''image/gif''\<rparr>)"
    by (simp add: onloadedmetadata_def totalFrames_def Let_def)
  note r = assms[unfolded om]
  obtain s where
    l: "sample_loop lib h c (Fin 400) ?hgt (Fin 10) (totalFrames c) 0 ?s0 = Some (Inr s)"
    and b: "b = \<lparr>blob_parts = finish (gif s), blob_type = ''image/gif''\<rparr>"
  proof (cases "sample_loop lib h c (Fin 400) ?hgt (Fin 10) (totalFrames c) 0 ?s0")
    case None
    with r show ?thesis by (simp split: if_splits)
  next
    case (Some r)
    show ?thesis
    proof (cases r)
      case (Inl e)
      with Some r show ?thesis by (simp split: if_splits)
    next
      case (Inr s)
      with Some r that show ?thesis by (simp split: if_splits)
    qed
  qed
  have p0: "presented (vid ?s0) = pres h (Fin 10) 0" by simp
  have "\<exists>n\<ge>0. gif s = gif ?s0 @ map (\<lambda>k. FrameChunk (frame_for lib c (Fin 400) ?hgt (Fin 10) (pres h (Fin 10) (Suc k)))) [0..<n]
          \<and> \<not> js_lt (Fin (of_nat n)) (totalFrames c)
          \<and> (\<forall>k. 0 \<le> k \<and> k < n \<longrightarrow> js_lt (Fin (of_nat k)) (totalFrames c))"
    using sample_loop_Inr[OF l] p0 by blast
  then obtain n where
    g: "gif s = map (\<lambda>k. FrameChunk (frame_for lib c (Fin 400) ?hgt (Fin 10) (pres h (Fin 10) (Suc k)))) [0..<n]"
    and n1: "\<not> js_lt (Fin (of_nat n)) (totalFrames c)"
    and n2: "\<forall>k. 0 \<le> k \<and> k < n \<longrightarrow> js_lt (Fin (of_nat k)) (totalFrames c)"
    by (elim exE conjE) simp
  have "gif s = map FrameChunk (sampled_frames lib h c n)"
    by (simp add: g sampled_frames_def)
  then have "frames_of (blob_parts b) = sampled_frames lib h c n"
    by (simp add: b finish_def frames_of_append frames_of_map_FrameChunk)
  moreover have "0 < n \<longrightarrow> (\<exists>hh. enforce_range_long ?hgt = Inr hh \<and> hh \<noteq> 0)"
  proof
    assume "0 < n"
    with n2 have "js_lt (Fin (of_nat (0::nat))) (totalFrames c)" by blast
    with sample_loop_Inr_height[OF l] show "\<exists>hh. enforce_range_long ?hgt = Inr hh \<and> hh \<noteq> 0" by simp
  qed
  ultimately show ?thesis using n1 n2 by (intro exI[of _ n]) simp
qed

lemma dispatch_settled: "p \<noteq> Pending \<Longrightarrow> dispatch lib h c evs p = p"
  by (induction evs) (cases p; simp)+

lemma dispatch_Resolved:
  "dispatch lib h c evs Pending = Resolved b \<Longrightarrow> onloadedmetadata lib h c = Resolved b"
proof (induction evs)
  case Nil
  then show ?case by simp
next
  case (Cons ev evs)
  show ?case
  proof (cases ev)
    case ErrorEvent
    with Cons.prems show ?thesis by (simp add: dispatch_settled)
  next
    case LoadedMetadata
    show ?thesis
    proof (cases "onloadedmetadata lib h c = Pending")
      case True
      with Cons LoadedMetadata show ?thesis by simp
    next
      case False
      with Cons.prems LoadedMetadata show ?thesis by (simp add: dispatch_settled)
    qed
  qed
qed

lemma createGifFromVideo_Resolved:
  assumes "createGifFromVideo lib h c = Resolved b"
  shows "encoder_is_function lib" and "onloadedmetadata lib h c = Resolved b"
  using assms by (auto simp: createGifFromVideo_def split: if_splits dest: dispatch_Resolved)

lemma createGifFromVideo_frames:
  assumes "createGifFromVideo lib h c = Resolved b"
  shows "frames_of (blob_parts b) = sampled_frames lib h c (frame_count b)"
proof -
  from onloadedmetadata_Resolved[OF createGifFromVideo_Resolved(2)[OF assms]]
  obtain n where "frames_of (blob_parts b) = sampled_frames lib h c n" by blast
  moreover from this have "frame_count b = n" by (simp add: frame_count_def sampled_frames_def)
  ultimately show ?thesis by simp
qed

lemma count_of_total:
  assumes "totalFrames c = Fin (of_int m)"
    and "\<not> js_lt (Fin (of_nat n)) (totalFrames c)"
    and "\<forall>k<n. js_lt (Fin (of_nat k)) (totalFrames c)"
  shows "n = nat m"
proof (cases n)
  case 0
  with assms(1,2) show ?thesis by simp
next
  case (Suc j)
  with assms(1,3) have "of_nat j < (of_int m :: rat)" by auto
  then have "int j < m" by (metis of_int_less_iff of_int_of_nat_eq)
  moreover from assms(1,2) have "\<not> (of_nat n :: rat) < of_int m" by simp
  then have "\<not> int n < m" by (metis of_int_less_iff of_int_of_nat_eq)
  ultimately show ?thesis using Suc by simp
qed

lemma totalFrames_floor:
  assumes "js_mul (js_or (duration c) (Fin 5)) (Fin 10) = Fin t"
  shows "totalFrames c = Fin (of_int \<lfloor>t\<rfloor>)"
  using assms by (simp add: totalFrames_def)

lemma createGifFromVideo_count:
  assumes "createGifFromVideo lib h c = Resolved b"
    and "js_mul (js_or (duration c) (Fin 5)) (Fin 10) = Fin t"
  shows "frame_count b = nat \<lfloor>t\<rfloor>"
proof -
  from onloadedmetadata_Resolved[OF createGifFromVideo_Resolved(2)[OF assms(1)]]
  obtain n where n: "frames_of (blob_parts b) = sampled_frames lib h c n"
    "\<not> js_lt (Fin (of_nat n)) (totalFrames c)" "\<forall>k<n. js_lt (Fin (of_nat k)) (totalFrames c)"
    by blast
  have "n = nat \<lfloor>t\<rfloor>" using count_of_total[OF totalFrames_floor[OF assms(2)] n(2,3)] .
  then show ?thesis using n(1) by (simp add: frame_count_def sampled_frames_def)
qed

lemma onloadedmetadata_total:
  assumes "ctx_available h" and "readable_raster c" and "totalFrames c = Fin t"
  shows "\<exists>b. onloadedmetadata lib h c = Resolved b"
proof -
  let ?s0 = "\<lparr>vid = \<lparr>currentTime = Fin 0, presented = Fin 0\<rparr>,
              ctx2d = \<lparr>raster = [], origin_clean = True\<rparr>, gif = []\<rparr>"
  from assms(2) obtain hh where hh: "enforce_range_long (plan_height c (Fin 400)) = Inr hh" "hh \<noteq> 0"
    and r: "cors_readable c"
    by (auto simp: readable_raster_def split: sum.splits)
  have "origin_clean (ctx2d ?s0)" by simp
  from sample_loop_total[OF enforce_range_long_400 _ hh r this, of lib h "Fin 10" t 0]
  obtain s' where "sample_loop lib h c (Fin 400) (plan_height c (Fin 400)) (Fin 10) (Fin t) 0 ?s0 = Some (Inr s')"
    by auto
  then show ?thesis using assms(1,3)
    by (simp add: onloadedmetadata_def totalFrames_def Let_def)
qed

lemma createGifFromVideo_total:
  assumes "encoder_is_function lib" and "media_events h = LoadedMetadata # evs"
    and "ctx_available h" and "readable_raster c" and "totalFrames c = Fin t"
  shows "\<exists>b. createGifFromVideo lib h c = Resolved b"
proof -
  from onloadedmetadata_total[OF assms(3-5)] obtain b where "onloadedmetadata lib h c = Resolved b"
    by blast
  moreover have "cors_readable c" using assms(4) by (simp add: readable_raster_def)
  ultimately show ?thesis
    using assms(1,2) by (simp add: createGifFromVideo_def load_def dispatch_settled)
qed

lemma convertible_total:
  assumes "convertible lib h c" and "totalFrames c = Fin t"
  shows "\<exists>b. createGifFromVideo lib h c = Resolved b"
proof -
  from assms(1) obtain evs where "media_events h = LoadedMetadata # evs"
    by (auto simp: convertible_def split: list.splits media_event.splits)
  with assms show ?thesis
    using createGifFromVideo_total[of lib h evs c t] by (simp add: convertible_def)
qed

lemma sampled_frames_nth:
  "k < n \<Longrightarrow> sampled_frames lib h c n ! k =
     frame_for lib c (Fin 400) (plan_height c (Fin 400)) (Fin 10) (pres h (Fin 10) (Suc k))"
  by (simp add: sampled_frames_def)

lemma sampled_frames_mem:
  assumes "f \<in> set (sampled_frames lib h c n)"
  shows "\<exists>k<n. f = frame_for lib c (Fin 400) (plan_height c (Fin 400)) (Fin 10) (pres h (Fin 10) (Suc k))"
  using assms by (auto simp: sampled_frames_def)

lemma createGifFromVideo_height:
  assumes "createGifFromVideo lib h c = Resolved b" and "0 < frame_count b"
  shows "\<exists>hh. enforce_range_long (plan_height c (Fin 400)) = Inr hh \<and> hh \<noteq> 0"
proof -
  from onloadedmetadata_Resolved[OF createGifFromVideo_Resolved(2)[OF assms(1)]]
  obtain n where n: "frames_of (blob_parts b) = sampled_frames lib h c n"
    "0 < n \<longrightarrow> (\<exists>hh. enforce_range_long (plan_height c (Fin 400)) = Inr hh \<and> hh \<noteq> 0)"
    by blast
  from n(1) have "frame_count b = n" by (simp add: frame_count_def sampled_frames_def)
  with assms(2) n(2) show ?thesis by simp
qed








lemma onloadedmetadata_unfold:
  "onloadedmetadata lib h c =
     (if \<not> ctx_available h then Rejected (Error ''Could not get canvas context'')
      else case sample_loop lib h c (Fin 400) (plan_height c (Fin 400)) (Fin 10) (totalFrames c) 0
                  \<lparr>vid = \<lparr>currentTime = Fin 0, presented = Fin 0\<rparr>,
                   ctx2d = \<lparr>raster = [], origin_clean = True\<rparr>, gif = []\<rparr> of
             None \<Rightarrow> Pending
           | Some (Inl e) \<Rightarrow> Rejected e
           | Some (Inr s) \<Rightarrow> Resolved \<lparr>blob_parts = finish (gif s), blob_type = ''image/gif''\<rparr>)"
  by (simp add: onloadedmetadata_def totalFrames_def Let_def)






lemma drawImage_stays_clean:
  "origin_clean ctx \<Longrightarrow> cors_readable c \<Longrightarrow> origin_clean (drawImage c v w hgt ctx)"
  by (simp add: drawImage_def)

lemma getImageData_clean:
  "origin_clean ctx \<Longrightarrow> getImageData ctx w hgt \<noteq> Inl (DOMException ''SecurityError'')"
  by (simp add: getImageData_def enforce_range_long_def split: sum.splits jsnum.splits)

lemma sample_frame_no_security:
  assumes "origin_clean (ctx2d s)" and "cors_readable c"
  shows "sample_frame lib h c w hgt fps i s \<noteq> Inl (DOMException ''SecurityError'')"
proof -
  let ?v = "wait_for_seek h i ((vid s)\<lparr>currentTime := js_div (Fin (of_nat i)) fps\<rparr>)"
  let ?ctx = "drawImage c ?v w hgt (ctx2d s)"
  have "origin_clean ?ctx" using assms by (rule drawImage_stays_clean)
  then have "getImageData ?ctx w hgt \<noteq> Inl (DOMException ''SecurityError'')"
    by (rule getImageData_clean)
  then show ?thesis
    by (cases "getImageData ?ctx w hgt") (simp_all add: sample_frame_def Let_def)
qed

lemma sample_loop_no_security:
  assumes "sample_loop lib h c w hgt fps tf i s = Some r"
  shows "origin_clean (ctx2d s) \<and> cors_readable c \<longrightarrow> r \<noteq> Inl (DOMException ''SecurityError'')"
  using assms
proof (induction lib h c w hgt fps tf i s r rule: sample_loop.raw_induct[rotated 1, consumes 1])
  case (1 loop lib h c w hgt fps tf i s r)
  show ?case
  proof
    assume a: "origin_clean (ctx2d s) \<and> cors_readable c"
    show "r \<noteq> Inl (DOMException ''SecurityError'')"
    proof (cases "js_lt (Fin (of_nat i)) tf")
      case False
      with 1(2) show ?thesis by auto
    next
      case True
      show ?thesis
      proof (cases "sample_frame lib h c w hgt fps i s")
        case (Inl e)
        with 1(2) True have "r = Inl e" by simp
        with Inl sample_frame_no_security[of s c lib h w hgt fps i] a show ?thesis by auto
      next
        case (Inr t)
        with 1(2) True have l: "loop lib h c w hgt fps tf (Suc i) t = Some r" by simp
        have "origin_clean (ctx2d t)" using Inr by (rule sample_frame_Inr(3))
        with 1(1)[OF l] a show ?thesis by simp
      qed
    qed
  qed
qed

lemma onloadedmetadata_no_security:
  assumes "cors_readable c"
  shows "onloadedmetadata lib h c \<noteq> Rejected (DOMException ''SecurityError'')"
proof
  assume r: "onloadedmetadata lib h c = Rejected (DOMException ''SecurityError'')"
  let ?s0 = "\<lparr>vid = \<lparr>currentTime = Fin 0, presented = Fin 0\<rparr>,
              ctx2d = \<lparr>raster = [], origin_clean = True\<rparr>, gif = []\<rparr>"
  let ?run = "sample_loop lib h c (Fin 400) (plan_height c (Fin 400)) (Fin 10) (totalFrames c) 0 ?s0"
  note r' = r[unfolded onloadedmetadata_unfold]
  have "?run = Some (Inl (DOMException ''SecurityError''))"
  proof (cases ?run)
    case None
    with r' show ?thesis by (simp split: if_splits)
  next
    case (Some x)
    with r' show ?thesis by (cases x) (simp_all split: if_splits)
  qed
  from sample_loop_no_security[OF this] assms show False by simp
qed

lemma dispatch_Rejected:
  "dispatch lib h c evs Pending = Rejected e \<Longrightarrow>
   e = Error ''Video load failed'' \<or> onloadedmetadata lib h c = Rejected e"
proof (induction evs)
  case Nil
  then show ?case by simp
next
  case (Cons ev evs)
  show ?case
  proof (cases ev)
    case ErrorEvent
    with Cons.prems show ?thesis by (simp add: dispatch_settled)
  next
    case LoadedMetadata
    show ?thesis
    proof (cases "onloadedmetadata lib h c = Pending")
      case True
      with Cons LoadedMetadata show ?thesis by simp
    next
      case False
      with Cons.prems LoadedMetadata show ?thesis by (simp add: dispatch_settled)
    qed
  qed
qed


section \<open>Properties of the polling loop\<close>










section \<open>Runs on the concrete inputs\<close>

lemma two_tone_run:
  "createGifFromVideo distinct_colours prompt_host two_tone = Resolved two_tone_gif"
  by code_simp

lemma two_tone_height: "plan_height two_tone (Fin 400) = Fin 224"
  by code_simp

lemma plan_height_update [simp]:
  "plan_height (c\<lparr>duration := d\<rparr>) w = plan_height c w"
  "plan_height (c\<lparr>cors_readable := r\<rparr>) w = plan_height c w"
  by (simp_all add: plan_height_def)

lemma two_tone_readable: "readable_raster two_tone"
  by (simp add: readable_raster_def two_tone_height enforce_range_long_def trunc_def)
     (simp add: two_tone_def)

lemma two_tone_convertible: "convertible distinct_colours prompt_host two_tone"
  by (simp add: convertible_def two_tone_readable) (simp add: distinct_colours_def prompt_host_def)

lemma js_mul_quarter: "js_mul (Fin (1 / 4)) (Fin 10) = Fin (5 / 2)"
  by code_simp

lemma js_mul_5_10: "js_mul (Fin 5) (Fin 10) = Fin 50"
  using round_to_double_of_int[of 50] by simp

lemma js_div_1000_10: "js_div (Fin 1000) (Fin 10) = Fin 100"
  using round_to_double_of_int[of 100] by simp



lemma distinct_colours_loaded: "encoder_is_function distinct_colours"
  by (simp add: distinct_colours_def)




lemma late_service_run:
  "pollForVideo late_service pending_operation = Some (Inr done_operation)
   \<and> clock_at late_service 1 - date_now late_service = 205000"
  by code_simp


section \<open>The claims\<close>

subsection \<open>C1: the number of frames\<close>

text \<open>
  C1.  For a clip whose duration \<open>D\<close> is positive and finite, with the frame rate fixed at
  10, every container the conversion produces holds exactly \<open>floor (D * 10)\<close> frames, the
  product being the one the code computes; and the conversion does produce a container
  when the clip is valid: the library is loaded, the metadata loads, a context is
  available and the raster can be read.
\<close>

theorem C1_frame_count:
  assumes "duration c = Fin D" and "0 < D" and "js_mul (Fin D) (Fin 10) = Fin t"
  shows "(\<forall>b. createGifFromVideo lib h c = Resolved b \<longrightarrow> frame_count b = nat \<lfloor>t\<rfloor>)
       \<and> (convertible lib h c \<longrightarrow>
            (\<exists>b. createGifFromVideo lib h c = Resolved b \<and> frame_count b = nat \<lfloor>t\<rfloor>))"
proof -
  have d: "js_or (duration c) (Fin 5) = Fin D"
    using assms(1,2) by (simp add: js_or_def truthy_def)
  have m: "js_mul (js_or (duration c) (Fin 5)) (Fin 10) = Fin t"
    using d assms(3) by simp
  have cnt: "frame_count b = nat \<lfloor>t\<rfloor>" if "createGifFromVideo lib h c = Resolved b" for b
    using createGifFromVideo_count[OF that m] .
  have "\<exists>b. createGifFromVideo lib h c = Resolved b" if "convertible lib h c"
    using convertible_total[OF that totalFrames_floor[OF m]] .
  with cnt show ?thesis by blast
qed

theorem C1_frame_count_witness:
  "duration two_tone = Fin (1 / 4) \<and> (0::rat) < 1 / 4
   \<and> js_mul (Fin (1 / 4)) (Fin 10) = Fin (5 / 2)
   \<and> convertible distinct_colours prompt_host two_tone
   \<and> (\<exists>b. createGifFromVideo distinct_colours prompt_host two_tone = Resolved b
          \<and> frame_count b = 2)"
proof -
  have d: "duration two_tone = Fin (1 / 4)" by (simp add: two_tone_def)
  have p: "(0::rat) < 1 / 4" by simp
  have "\<lfloor>5 / 2 :: rat\<rfloor> = 2" by (rule floor_unique) simp_all
  then have "nat \<lfloor>5 / 2 :: rat\<rfloor> = 2" by simp
  with C1_frame_count[OF d p js_mul_quarter, of distinct_colours prompt_host]
    two_tone_convertible d js_mul_quarter
  show ?thesis by simp
qed

subsection \<open>C2: a seek that times out\<close>



subsection \<open>C3: a clip that fails to load\<close>

text \<open>
  C3.  When the load-error event is the first event on the video element, the promise
  is rejected with the error \<open>Video load failed\<close> and no container is produced, whatever
  arrives afterwards.
\<close>

theorem C3_load_failure:
  assumes "encoder_is_function lib" and "media_events h = ErrorEvent # evs"
  shows "createGifFromVideo lib h c = Rejected (Error ''Video load failed'')
       \<and> (\<forall>b. createGifFromVideo lib h c \<noteq> Resolved b)"
  using assms by (simp add: createGifFromVideo_def load_def dispatch_settled)

theorem C3_load_failure_witness:
  "encoder_is_function distinct_colours
   \<and> media_events failing_host = ErrorEvent # [LoadedMetadata]
   \<and> createGifFromVideo distinct_colours failing_host two_tone = Rejected (Error ''Video load failed'')"
proof -
  have e: "encoder_is_function distinct_colours" by (simp add: distinct_colours_def)
  have m: "media_events failing_host = ErrorEvent # [LoadedMetadata]" by (simp add: failing_host_def)
  from C3_load_failure[OF e m, of two_tone] e m show ?thesis by simp
qed

subsection \<open>C4: width and height\<close>

text \<open>
  C4.  Every frame of a container the conversion produces has width 400 and an even
  height: \<open>floor\<close> of \<open>(videoHeight / videoWidth) * 400\<close>, as the code computes the
  quotient and the product, less one when that is odd.
\<close>

theorem C4_even_height:
  assumes "createGifFromVideo lib h c = Resolved b" and "f \<in> set (frames_of (blob_parts b))"
  shows "fwidth f = Fin 400
       \<and> (\<exists>y. scaled_height c (Fin 400) = Fin y
              \<and> fheight f = Fin (of_int (if odd \<lfloor>y\<rfloor> then \<lfloor>y\<rfloor> - 1 else \<lfloor>y\<rfloor>)))
       \<and> (\<exists>n. fheight f = Fin (of_int n) \<and> even n)"
proof -
  from assms obtain k where
    f: "f = frame_for lib c (Fin 400) (plan_height c (Fin 400)) (Fin 10) (pres h (Fin 10) (Suc k))"
    using createGifFromVideo_frames[OF assms(1)] sampled_frames_mem by metis
  have w: "fwidth f = Fin 400" and hf: "fheight f = plan_height c (Fin 400)"
    by (simp_all add: f frame_for_def Let_def)
  from assms(2) have "0 < frame_count b"
    by (cases "frames_of (blob_parts b)") (simp_all add: frame_count_def)
  from createGifFromVideo_height[OF assms(1) this]
  have "is_fin (plan_height c (Fin 400))" by (auto dest: enforce_range_long_Inr)
  then have "is_fin (scaled_height c (Fin 400))" using plan_height_not_Fin by blast
  then obtain y where y: "scaled_height c (Fin 400) = Fin y"
    by (cases "scaled_height c (Fin 400)") simp_all
  let ?n = "if odd \<lfloor>y\<rfloor> then \<lfloor>y\<rfloor> - 1 else \<lfloor>y\<rfloor>"
  have ph: "fheight f = Fin (of_int ?n)" using plan_height_Fin[OF y] hf by simp
  have "even ?n" by simp
  with w y ph show ?thesis by blast
qed

theorem C4_even_height_witness:
  "createGifFromVideo distinct_colours prompt_host two_tone = Resolved two_tone_gif
   \<and> frames_of (blob_parts two_tone_gif) ! 1 \<in> set (frames_of (blob_parts two_tone_gif))
   \<and> fwidth (frames_of (blob_parts two_tone_gif) ! 1) = Fin 400
   \<and> (\<exists>n. fheight (frames_of (blob_parts two_tone_gif) ! 1) = Fin (of_int n) \<and> even n)"
proof -
  have m: "frames_of (blob_parts two_tone_gif) ! 1 \<in> set (frames_of (blob_parts two_tone_gif))"
    by (simp add: two_tone_gif_def)
  note t = C4_even_height[OF two_tone_run m]
  show ?thesis
    by (intro conjI) (rule two_tone_run m conjunct1[OF t] conjunct2[OF conjunct2[OF t]])+
qed

subsection \<open>C5: one palette for each frame\<close>

text \<open>
  C5.  Every frame of a container the conversion produces carries the palette that
  \<^verbatim>\<open>quantize\<close> returns for the raster of that frame alone, asked for 256 colours, and the
  indices \<^verbatim>\<open>applyPalette\<close> returns for that raster and that palette; the palette has at
  most 256 colours when the quantizer never returns more colours than it is asked for.
\<close>

theorem C5_own_palette:
  assumes "createGifFromVideo lib h c = Resolved b" and "k < frame_count b"
  shows "palette (frames_of (blob_parts b) ! k)
           = quantize lib (frame_at c (pres h (Fin 10) (Suc k))) 256
       \<and> index (frames_of (blob_parts b) ! k)
           = applyPalette lib (frame_at c (pres h (Fin 10) (Suc k)))
               (palette (frames_of (blob_parts b) ! k))
       \<and> ((\<forall>data n. length (quantize lib data n) \<le> n)
            \<longrightarrow> length (palette (frames_of (blob_parts b) ! k)) \<le> 256)"
proof -
  have "frames_of (blob_parts b) ! k =
      frame_for lib c (Fin 400) (plan_height c (Fin 400)) (Fin 10) (pres h (Fin 10) (Suc k))"
    using createGifFromVideo_frames[OF assms(1)] sampled_frames_nth[OF assms(2)] by simp
  then show ?thesis by (simp add: frame_for_def Let_def)
qed

theorem C5_own_palette_witness:
  "createGifFromVideo distinct_colours prompt_host two_tone = Resolved two_tone_gif
   \<and> 1 < frame_count two_tone_gif
   \<and> (\<forall>data n. length (quantize distinct_colours data n) \<le> n)
   \<and> palette (frames_of (blob_parts two_tone_gif) ! 1)
        = quantize distinct_colours (frame_at two_tone (pres prompt_host (Fin 10) (Suc 1))) 256
   \<and> length (palette (frames_of (blob_parts two_tone_gif) ! 1)) \<le> 256"
proof -
  have k: "1 < frame_count two_tone_gif" by (simp add: frame_count_def two_tone_gif_def)
  have q: "\<forall>data n. length (quantize distinct_colours data n) \<le> n"
    by (simp add: distinct_colours_def)
  from C5_own_palette[OF two_tone_run k] two_tone_run k q show ?thesis by blast
qed

subsection \<open>C6: the delay of a frame\<close>

text \<open>
  C6.  Every frame of a container the conversion produces carries the delay
  \<open>1000 / 10\<close>, that is 100 milliseconds.
\<close>

theorem C6_constant_delay:
  assumes "createGifFromVideo lib h c = Resolved b" and "f \<in> set (frames_of (blob_parts b))"
  shows "delay f = js_div (Fin 1000) (Fin 10) \<and> delay f = Fin 100"
proof -
  from assms obtain k where
    "f = frame_for lib c (Fin 400) (plan_height c (Fin 400)) (Fin 10) (pres h (Fin 10) (Suc k))"
    using createGifFromVideo_frames[OF assms(1)] sampled_frames_mem by metis
  then have "delay f = js_div (Fin 1000) (Fin 10)"
    by (simp add: frame_for_def Let_def)
  then show ?thesis by (simp only: js_div_1000_10)
qed

theorem C6_constant_delay_witness:
  "createGifFromVideo distinct_colours prompt_host two_tone = Resolved two_tone_gif
   \<and> frames_of (blob_parts two_tone_gif) ! 1 \<in> set (frames_of (blob_parts two_tone_gif))
   \<and> delay (frames_of (blob_parts two_tone_gif) ! 1) = Fin 100"
proof -
  have m: "frames_of (blob_parts two_tone_gif) ! 1 \<in> set (frames_of (blob_parts two_tone_gif))"
    by (simp add: two_tone_gif_def)
  note d = conjunct2[OF C6_constant_delay[OF two_tone_run m]]
  show ?thesis
    by (intro conjI) (rule two_tone_run m d)+
qed

subsection \<open>C7: pixels that may not be read\<close>

text \<open>
  C7, as stated, fails: the clip \<open>unreadable\<close> does not pass the cross-origin check; the
  element, which asks for a CORS-mode fetch, does not load it, and the conversion is
  rejected with the error of a failed load, not with a security error.
\<close>

theorem C7_counterexample:
  "\<not> cors_readable unreadable
   \<and> createGifFromVideo distinct_colours prompt_host unreadable
       = Rejected (Error ''Video load failed'')
   \<and> Error ''Video load failed'' \<noteq> DOMException ''SecurityError''"
  by (simp add: unreadable_def createGifFromVideo_def load_def distinct_colours_def)

text \<open>
  C7, amended.  A clip that violates the cross-origin-readable precondition is not loaded
  by the element, and the conversion is rejected with the error \<open>Video load failed\<close>, the
  same as for any other failed load; and no conversion at all is rejected with a
  \<open>SecurityError\<close>, since a clip that loads may be read.
\<close>

theorem C7_unreadable_clip:
  "createGifFromVideo lib h c \<noteq> Rejected (DOMException ''SecurityError'')
   \<and> (encoder_is_function lib \<and> \<not> cors_readable c \<longrightarrow>
        createGifFromVideo lib h c = Rejected (Error ''Video load failed''))"
proof
  show "createGifFromVideo lib h c \<noteq> Rejected (DOMException ''SecurityError'')"
  proof
    assume r: "createGifFromVideo lib h c = Rejected (DOMException ''SecurityError'')"
    then have e: "encoder_is_function lib"
      and d: "dispatch lib h c (load h c) Pending = Rejected (DOMException ''SecurityError'')"
      by (auto simp: createGifFromVideo_def split: if_splits)
    from dispatch_Rejected[OF d]
    have o: "onloadedmetadata lib h c = Rejected (DOMException ''SecurityError'')" by simp
    show False
    proof (cases "cors_readable c")
      case True
      with o onloadedmetadata_no_security show False by blast
    next
      case False
      with d show False by (simp add: load_def)
    qed
  qed
  show "encoder_is_function lib \<and> \<not> cors_readable c \<longrightarrow>
        createGifFromVideo lib h c = Rejected (Error ''Video load failed'')"
    by (simp add: createGifFromVideo_def load_def)
qed

theorem C7_unreadable_clip_witness:
  "encoder_is_function distinct_colours \<and> \<not> cors_readable unreadable
   \<and> createGifFromVideo distinct_colours stalled_host unreadable
       = Rejected (Error ''Video load failed'')"
proof -
  have e: "encoder_is_function distinct_colours" by (rule distinct_colours_loaded)
  have u: "\<not> cors_readable unreadable" by (simp add: unreadable_def)
  note t = mp[OF conjunct2[OF C7_unreadable_clip[of distinct_colours stalled_host unreadable]]
                conjI[OF e u]]
  show ?thesis
    by (intro conjI) (rule e u t)+
qed

subsection \<open>C8: the ceiling of the polling\<close>



subsection \<open>C9: two runs on one clip\<close>




subsection \<open>C10: a clip without a duration\<close>

text \<open>
  C10.  When the loaded clip reports a falsy duration (0 or \<open>NaN\<close>), 5 seconds are taken
  instead: every container produced holds 50 frames, a container is produced when the clip
  can be converted, and 50 is not \<open>floor\<close> of the reported duration times the frame rate.
\<close>

theorem C10_default_duration:
  assumes "\<not> truthy (duration c)"
  shows "(\<forall>b. createGifFromVideo lib h c = Resolved b \<longrightarrow> frame_count b = 50)
       \<and> (convertible lib h c \<longrightarrow>
            (\<exists>b. createGifFromVideo lib h c = Resolved b \<and> frame_count b = 50))
       \<and> js_floor (js_mul (duration c) (Fin 10)) \<noteq> Fin 50"
proof -
  have m: "js_mul (js_or (duration c) (Fin 5)) (Fin 10) = Fin 50"
    using assms js_mul_5_10 by (simp add: js_or_def)
  have cnt: "frame_count b = 50" if "createGifFromVideo lib h c = Resolved b" for b
    using createGifFromVideo_count[OF that m] by simp
  have ex: "\<exists>b. createGifFromVideo lib h c = Resolved b" if "convertible lib h c"
    using convertible_total[OF that totalFrames_floor[OF m]] .
  have "duration c = NaN \<or> duration c = Fin 0"
    using assms by (auto simp: truthy_def)
  then have "js_floor (js_mul (duration c) (Fin 10)) \<noteq> Fin 50"
    by (auto simp: round_to_double_def)
  with cnt ex show ?thesis by blast
qed

theorem C10_default_duration_witness:
  "\<not> truthy (duration (two_tone\<lparr>duration := NaN\<rparr>))
   \<and> convertible distinct_colours prompt_host (two_tone\<lparr>duration := NaN\<rparr>)
   \<and> (\<exists>b. createGifFromVideo distinct_colours prompt_host (two_tone\<lparr>duration := NaN\<rparr>) = Resolved b
          \<and> frame_count b = 50)"
proof -
  have t: "\<not> truthy (duration (two_tone\<lparr>duration := NaN\<rparr>))" by (simp add: truthy_def)
  have "readable_raster (two_tone\<lparr>duration := NaN\<rparr>)"
    using two_tone_readable by (simp add: readable_raster_def)
  then have c: "convertible distinct_colours prompt_host (two_tone\<lparr>duration := NaN\<rparr>)"
    using two_tone_convertible by (simp add: convertible_def)
  from C10_default_duration[OF t, of distinct_colours prompt_host] t c
  show ?thesis by simp
qed

end
